theory Spec2Isabelle
  imports Main
begin

section \<open>Prime number algorithms of sample\_project (algorithms/primes.py)\<close>

text \<open>
  The module is pure Python over unbounded integers, so integers are \<open>int\<close> and the
  sieve table (a Python \<open>list[bool]\<close>) is a \<open>bool list\<close>.

  Every function returns a value of type \<open>(error + 'a) option\<close>:
  \<^item> \<open>None\<close>: the call does not return (a \<open>while\<close> loop runs forever);
  \<^item> \<open>Some (Inl e)\<close>: the call raises the exception \<open>e\<close>;
  \<^item> \<open>Some (Inr v)\<close>: the call returns \<open>v\<close>.

  The \<open>while\<close> loops are written as the source has them, with no guard added, so
  they are partial functions of their loop variables; that the calls made by the
  module do return is proved below.
\<close>

subsection \<open>Python values and exceptions\<close>

text \<open>
  \<open>ValueError\<close> carries its message. \<open>IndexError\<close> and \<open>ZeroDivisionError\<close> are
  what list subscription and \<open>%\<close>, \<open>//\<close> raise by themselves.
\<close>

datatype error = ValueError string | IndexError | ZeroDivisionError

text \<open>Python's \<open>str\<close> of an integer, as the f-strings of the error messages use it.\<close>

definition digit_char :: "nat \<Rightarrow> char" where
  "digit_char d = char_of (48 + d)"

function str_nat :: "nat \<Rightarrow> string" where
  "str_nat k = (if k < 10 then [digit_char k] else str_nat (k div 10) @ [digit_char (k mod 10)])"
  by pat_completeness auto
termination
  by (relation "measure (\<lambda>k. k)") auto

declare str_nat.simps [simp del]

definition str_int :: "int \<Rightarrow> string" where
  "str_int n = (if n < 0 then CHR ''-'' # str_nat (nat (- n)) else str_nat (nat n))"

text \<open>
  List subscription \<open>xs[i]\<close> and \<open>xs[i] = v\<close>: a negative index counts from the end,
  an index out of range raises \<open>IndexError\<close>.
\<close>

definition list_get :: "'a list \<Rightarrow> int \<Rightarrow> error + 'a" where
  "list_get xs i =
     (let len = int (length xs); j = (if i < 0 then len + i else i)
      in if 0 \<le> j \<and> j < len then Inr (xs ! nat j) else Inl IndexError)"

definition list_set :: "'a list \<Rightarrow> int \<Rightarrow> 'a \<Rightarrow> error + 'a list" where
  "list_set xs i v =
     (let len = int (length xs); j = (if i < 0 then len + i else i)
      in if 0 \<le> j \<and> j < len then Inr (xs[nat j := v]) else Inl IndexError)"

text \<open>
  \<open>[False] * k\<close>: a list of \<open>k\<close> copies, empty when \<open>k \<le> 0\<close> (as \<open>nat\<close> of a
  negative integer is \<open>0\<close>).
\<close>

definition list_repeat :: "'a \<Rightarrow> int \<Rightarrow> 'a list" where
  "list_repeat v k = replicate (nat k) v"

text \<open>\<open>range(a, b)\<close>: the integers \<open>a, a + 1, ..., b - 1\<close>.\<close>

definition py_range :: "int \<Rightarrow> int \<Rightarrow> int list" where
  "py_range a b = [a..b - 1]"

subsection \<open>generate\_sieve\<close>

text \<open>\<open>for i in range(2, n + 1): is_prime[i] = True\<close>, over the list of indices.\<close>

fun init_candidates :: "int list \<Rightarrow> bool list \<Rightarrow> error + bool list" where
  "init_candidates [] tbl = Inr tbl"
| "init_candidates (i # rest) tbl =
     (case list_set tbl i True of
        Inl e \<Rightarrow> Inl e
      | Inr tbl' \<Rightarrow> init_candidates rest tbl')"

text \<open>\<open>while j <= n: is_prime[j] = False; j += i\<close>\<close>

partial_function (option) mark_multiples ::
  "int \<Rightarrow> int \<Rightarrow> int \<Rightarrow> bool list \<Rightarrow> (error + bool list) option" where
  [code]: "mark_multiples n i j tbl =
     (if j \<le> n then
        (case list_set tbl j False of
           Inl e \<Rightarrow> Some (Inl e)
         | Inr tbl' \<Rightarrow> mark_multiples n i (j + i) tbl')
      else Some (Inr tbl))"

text \<open>
  \<open>while i * i <= n: if is_prime[i]: (j = i * i; inner loop); i += 1\<close>
\<close>

partial_function (option) sieve_loop ::
  "int \<Rightarrow> int \<Rightarrow> bool list \<Rightarrow> (error + bool list) option" where
  [code]: "sieve_loop n i tbl =
     (if i * i \<le> n then
        (case list_get tbl i of
           Inl e \<Rightarrow> Some (Inl e)
         | Inr b \<Rightarrow>
             (if b then
                (case mark_multiples n i (i * i) tbl of
                   None \<Rightarrow> None
                 | Some (Inl e) \<Rightarrow> Some (Inl e)
                 | Some (Inr tbl') \<Rightarrow> sieve_loop n (i + 1) tbl')
              else sieve_loop n (i + 1) tbl))
      else Some (Inr tbl))"

definition generate_sieve :: "int \<Rightarrow> (error + bool list) option" where
  "generate_sieve n =
     (if n < 0 then Some (Inl (ValueError (''Limit cannot be negative: '' @ str_int n)))
      else if n < 2 then Some (Inr (list_repeat False (n + 1)))
      else
        (case init_candidates (py_range 2 (n + 1)) (list_repeat False (n + 1)) of
           Inl e \<Rightarrow> Some (Inl e)
         | Inr tbl \<Rightarrow> sieve_loop n 2 tbl))"

subsection \<open>is\_prime\<close>

definition is_prime :: "int \<Rightarrow> (error + bool) option" where
  "is_prime n =
     (if n < 2 then Some (Inr False)
      else
        (case generate_sieve n of
           None \<Rightarrow> None
         | Some (Inl e) \<Rightarrow> Some (Inl e)
         | Some (Inr sieve) \<Rightarrow> Some (list_get sieve n)))"

subsection \<open>sum\_primes and sum\_primes\_using\_sieve\<close>

text \<open>\<open>for i in range(2, n): if sieve[i]: tot += i\<close>, over the list of indices.\<close>

fun sum_marked :: "bool list \<Rightarrow> int list \<Rightarrow> int \<Rightarrow> error + int" where
  "sum_marked sieve [] tot = Inr tot"
| "sum_marked sieve (i # rest) tot =
     (case list_get sieve i of
        Inl e \<Rightarrow> Inl e
      | Inr b \<Rightarrow> sum_marked sieve rest (if b then tot + i else tot))"

definition sum_primes :: "int \<Rightarrow> (error + int) option" where
  "sum_primes n =
     (if n < 0 then Some (Inl (ValueError (''Upper bound cannot be negative: '' @ str_int n)))
      else if n \<le> 2 then Some (Inr 0)
      else
        (case generate_sieve (n - 1) of
           None \<Rightarrow> None
         | Some (Inl e) \<Rightarrow> Some (Inl e)
         | Some (Inr sieve) \<Rightarrow> Some (sum_marked sieve (py_range 2 n) 0)))"

definition sum_primes_using_sieve :: "int \<Rightarrow> (error + int) option" where
  "sum_primes_using_sieve n =
     (if n < 0 then Some (Inl (ValueError (''Upper limit cannot be negative: '' @ str_int n)))
      else if n < 2 then Some (Inr 0)
      else
        (case generate_sieve (n - 1) of
           None \<Rightarrow> None
         | Some (Inl e) \<Rightarrow> Some (Inl e)
         | Some (Inr sieve) \<Rightarrow> Some (sum_marked sieve (py_range 2 n) 0)))"

subsection \<open>get\_all\_primes\_up\_to\<close>

text \<open>\<open>for i in range(2, n + 1): if sieve[i]: primes.append(i)\<close>\<close>

fun collect_marked :: "bool list \<Rightarrow> int list \<Rightarrow> int list \<Rightarrow> error + int list" where
  "collect_marked sieve [] primes = Inr primes"
| "collect_marked sieve (i # rest) primes =
     (case list_get sieve i of
        Inl e \<Rightarrow> Inl e
      | Inr b \<Rightarrow> collect_marked sieve rest (if b then primes @ [i] else primes))"

definition get_all_primes_up_to :: "int \<Rightarrow> (error + int list) option" where
  "get_all_primes_up_to n =
     (if n < 0 then Some (Inl (ValueError (''Upper bound cannot be negative: '' @ str_int n)))
      else if n < 2 then Some (Inr [])
      else
        (case generate_sieve n of
           None \<Rightarrow> None
         | Some (Inl e) \<Rightarrow> Some (Inl e)
         | Some (Inr sieve) \<Rightarrow> Some (collect_marked sieve (py_range 2 (n + 1)) [])))"

subsection \<open>prime\_factors\<close>

text \<open>
  \<open>while n % i == 0: factors.append(i); n //= i\<close>.
  The state of the loops is the pair of the remaining \<open>n\<close> and \<open>factors\<close>.
  Python's \<open>%\<close> and \<open>//\<close> round to the floor, as \<open>mod\<close> and \<open>div\<close> on \<open>int\<close> do, and
  raise \<open>ZeroDivisionError\<close> for a zero divisor.
\<close>

partial_function (option) divide_out ::
  "int \<Rightarrow> int \<Rightarrow> int list \<Rightarrow> (error + int \<times> int list) option" where
  [code]: "divide_out i n factors =
     (if i = 0 then Some (Inl ZeroDivisionError)
      else if n mod i = 0 then divide_out i (n div i) (factors @ [i])
      else Some (Inr (n, factors)))"

text \<open>\<open>while i * i <= n: (inner loop); i += 1\<close>\<close>

partial_function (option) trial_division ::
  "int \<Rightarrow> int \<Rightarrow> int list \<Rightarrow> (error + int \<times> int list) option" where
  [code]: "trial_division i n factors =
     (if i * i \<le> n then
        (case divide_out i n factors of
           None \<Rightarrow> None
         | Some (Inl e) \<Rightarrow> Some (Inl e)
         | Some (Inr (n', factors')) \<Rightarrow> trial_division (i + 1) n' factors')
      else Some (Inr (n, factors)))"

definition prime_factors :: "int \<Rightarrow> (error + int list) option" where
  "prime_factors n =
     (if n \<le> 0 then Some (Inl (ValueError (''Number must be positive: '' @ str_int n)))
      else
        (case trial_division 2 n [] of
           None \<Rightarrow> None
         | Some (Inl e) \<Rightarrow> Some (Inl e)
         | Some (Inr (n', factors)) \<Rightarrow>
             Some (Inr (if n' > 1 then factors @ [n'] else factors))))"

subsection \<open>What the specification calls a prime number\<close>

text \<open>
  An integer is prime when it is at least 2 and no integer strictly between 1 and
  itself divides it.
\<close>

definition prime_number :: "int \<Rightarrow> bool" where
  "prime_number p = (2 \<le> p \<and> (\<forall>d \<in> set [2..p - 1]. \<not> d dvd p))"

subsection \<open>generate\_sieve with the table as an object of the heap\<close>

text \<open>
  A Python list is an object: \<open>[False] * (n + 1)\<close> allocates one, \<open>is_prime\<close> is a
  reference to it, \<open>is_prime[j] = False\<close> writes through the reference and
  \<open>return is_prime\<close> hands the reference to the caller. What two calls return is
  therefore a matter of the heap they run in: the objects that exist already (a table
  returned earlier, which its caller may have changed since) and the next free address.
  The heap holds the list objects by address; the addresses below \<open>next_addr\<close> are in use.
\<close>

record heap =
  objs :: "nat \<Rightarrow> bool list"
  next_addr :: nat

text \<open>Writing an object at an address, and allocating a new one.\<close>

definition heap_store :: "nat \<Rightarrow> bool list \<Rightarrow> heap \<Rightarrow> heap" where
  "heap_store a xs h = h\<lparr>objs := (objs h)(a := xs)\<rparr>"

definition new_list :: "bool list \<Rightarrow> heap \<Rightarrow> nat \<times> heap" where
  "new_list xs h = (next_addr h, (heap_store (next_addr h) xs h)\<lparr>next_addr := Suc (next_addr h)\<rparr>)"

text \<open>\<open>r[i]\<close> and \<open>r[i] = v\<close> for a reference \<open>r\<close> to the object at address \<open>a\<close>.\<close>

definition ref_get :: "heap \<Rightarrow> nat \<Rightarrow> int \<Rightarrow> error + bool" where
  "ref_get h a i = list_get (objs h a) i"

definition ref_set :: "heap \<Rightarrow> nat \<Rightarrow> int \<Rightarrow> bool \<Rightarrow> error + heap" where
  "ref_set h a i v =
     (case list_set (objs h a) i v of
        Inl e \<Rightarrow> Inl e
      | Inr xs \<Rightarrow> Inr (heap_store a xs h))"

text \<open>The three loops of \<open>generate_sieve\<close>, on the object at address \<open>a\<close>.\<close>

fun init_candidates_ref :: "int list \<Rightarrow> nat \<Rightarrow> heap \<Rightarrow> error + heap" where
  "init_candidates_ref [] a h = Inr h"
| "init_candidates_ref (i # rest) a h =
     (case ref_set h a i True of
        Inl e \<Rightarrow> Inl e
      | Inr h' \<Rightarrow> init_candidates_ref rest a h')"

partial_function (option) mark_multiples_ref ::
  "int \<Rightarrow> int \<Rightarrow> int \<Rightarrow> nat \<Rightarrow> heap \<Rightarrow> (error + heap) option" where
  [code]: "mark_multiples_ref n i j a h =
     (if j \<le> n then
        (case ref_set h a j False of
           Inl e \<Rightarrow> Some (Inl e)
         | Inr h' \<Rightarrow> mark_multiples_ref n i (j + i) a h')
      else Some (Inr h))"

partial_function (option) sieve_loop_ref ::
  "int \<Rightarrow> int \<Rightarrow> nat \<Rightarrow> heap \<Rightarrow> (error + heap) option" where
  [code]: "sieve_loop_ref n i a h =
     (if i * i \<le> n then
        (case ref_get h a i of
           Inl e \<Rightarrow> Some (Inl e)
         | Inr b \<Rightarrow>
             (if b then
                (case mark_multiples_ref n i (i * i) a h of
                   None \<Rightarrow> None
                 | Some (Inl e) \<Rightarrow> Some (Inl e)
                 | Some (Inr h') \<Rightarrow> sieve_loop_ref n (i + 1) a h')
              else sieve_loop_ref n (i + 1) a h))
      else Some (Inr h))"

text \<open>The call returns the reference and the heap it leaves.\<close>

definition generate_sieve_ref :: "int \<Rightarrow> heap \<Rightarrow> (error + nat \<times> heap) option" where
  "generate_sieve_ref n h =
     (if n < 0 then Some (Inl (ValueError (''Limit cannot be negative: '' @ str_int n)))
      else if n < 2 then Some (Inr (new_list (list_repeat False (n + 1)) h))
      else
        (case new_list (list_repeat False (n + 1)) h of
           (a, h0) \<Rightarrow>
             (case init_candidates_ref (py_range 2 (n + 1)) a h0 of
                Inl e \<Rightarrow> Some (Inl e)
              | Inr h1 \<Rightarrow>
                  (case sieve_loop_ref n 2 a h1 of
                     None \<Rightarrow> None
                   | Some (Inl e) \<Rightarrow> Some (Inl e)
                   | Some (Inr h2) \<Rightarrow> Some (Inr (a, h2))))))"

text \<open>
  How a result of the loops on a list value reads as a result on the object at \<open>a\<close>
  (used to relate the two forms of the loops).
\<close>

definition in_heap :: "nat \<Rightarrow> heap \<Rightarrow> (error + bool list) option \<Rightarrow> (error + heap) option" where
  "in_heap a h r =
     (case r of
        None \<Rightarrow> None
      | Some (Inl e) \<Rightarrow> Some (Inl e)
      | Some (Inr t) \<Rightarrow> Some (Inr (heap_store a t h)))"

text \<open>The heap with no object, for the examples.\<close>

definition empty_heap :: heap where
  "empty_heap = \<lparr>objs = (\<lambda>a. []), next_addr = 0\<rparr>"

section \<open>Proofs\<close>

subsection \<open>List operations and the loops of generate\_sieve\<close>

lemma list_set_in_range:
  "0 \<le> i \<Longrightarrow> i < int (length xs) \<Longrightarrow> list_set xs i v = Inr (xs[nat i := v])"
  by (simp add: list_set_def)

lemma list_get_in_range:
  "0 \<le> i \<Longrightarrow> i < int (length xs) \<Longrightarrow> list_get xs i = Inr (xs ! nat i)"
  by (simp add: list_get_def)

lemma init_candidates_marks:
  "\<forall>i \<in> set idx. 0 \<le> i \<and> i < int (length tbl) \<Longrightarrow>
   \<exists>t. init_candidates idx tbl = Inr t \<and> length t = length tbl \<and>
       (\<forall>k < length tbl. t ! k = (tbl ! k \<or> int k \<in> set idx))"
proof (induction idx arbitrary: tbl)
  case Nil
  then show ?case by simp
next
  case (Cons i rest)
  let ?tbl' = "tbl[nat i := True]"
  from Cons.prems have i: "0 \<le> i" "i < int (length tbl)" by simp_all
  have step: "list_set tbl i True = Inr ?tbl'"
    using i by (rule list_set_in_range)
  have "\<forall>i \<in> set rest. 0 \<le> i \<and> i < int (length ?tbl')"
    using Cons.prems by simp
  from Cons.IH [OF this] obtain t where
    t: "init_candidates rest ?tbl' = Inr t" "length t = length ?tbl'"
       "\<forall>k < length ?tbl'. t ! k = (?tbl' ! k \<or> int k \<in> set rest)"
    by blast
  have "\<forall>k < length tbl. t ! k = (tbl ! k \<or> int k \<in> set (i # rest))"
  proof (intro allI impI)
    fix k assume k: "k < length tbl"
    then have "t ! k = (?tbl' ! k \<or> int k \<in> set rest)" using t(3) by simp
    also have "?tbl' ! k = (tbl ! k \<or> int k = i)"
      using k i by (auto simp: nth_list_update)
    finally show "t ! k = (tbl ! k \<or> int k \<in> set (i # rest))" by auto
  qed
  with t step show ?case by simp
qed

lemma dvd_next_multiple:
  fixes i j k :: int
  assumes "0 < i" "i dvd j" "i dvd k" "j < k"
  shows "j + i \<le> k"
proof -
  have "i dvd (k - j)" using assms by (simp add: dvd_diff)
  moreover have "0 < k - j" using assms by simp
  ultimately have "i \<le> k - j" by (rule zdvd_imp_le)
  then show ?thesis by simp
qed

lemma mark_multiples_marks:
  assumes "0 < i" "0 \<le> j" "i dvd j" "int (length tbl) = n + 1"
  shows "\<exists>t. mark_multiples n i j tbl = Some (Inr t) \<and> length t = length tbl \<and>
       (\<forall>k < length tbl. t ! k = (tbl ! k \<and> \<not> (j \<le> int k \<and> i dvd int k)))"
  using assms
proof (induction "nat (n + 1 - j)" arbitrary: j tbl rule: less_induct)
  case less
  show ?case
  proof (cases "j \<le> n")
    case False
    then have "mark_multiples n i j tbl = Some (Inr tbl)"
      by (simp add: mark_multiples.simps)
    moreover have "\<forall>k < length tbl. \<not> j \<le> int k"
      using False less.prems(4) by auto
    ultimately show ?thesis by simp
  next
    case True
    let ?tbl' = "tbl[nat j := False]"
    have step: "list_set tbl j False = Inr ?tbl'"
      using True less.prems by (intro list_set_in_range) auto
    have unfold: "mark_multiples n i j tbl = mark_multiples n i (j + i) ?tbl'"
      using True step by (subst mark_multiples.simps) simp
    have "nat (n + 1 - (j + i)) < nat (n + 1 - j)"
      using True less.prems(1) by auto
    moreover have "0 \<le> j + i" "i dvd j + i" "int (length ?tbl') = n + 1"
      using less.prems by auto
    ultimately obtain t where
      t: "mark_multiples n i (j + i) ?tbl' = Some (Inr t)" "length t = length ?tbl'"
         "\<forall>k < length ?tbl'. t ! k = (?tbl' ! k \<and> \<not> (j + i \<le> int k \<and> i dvd int k))"
      using less.hyps [of "j + i" ?tbl'] less.prems(1) by blast
    have "\<forall>k < length tbl. t ! k = (tbl ! k \<and> \<not> (j \<le> int k \<and> i dvd int k))"
    proof (intro allI impI)
      fix k assume k: "k < length tbl"
      then have tk: "t ! k = (?tbl' ! k \<and> \<not> (j + i \<le> int k \<and> i dvd int k))"
        using t(3) by simp
      show "t ! k = (tbl ! k \<and> \<not> (j \<le> int k \<and> i dvd int k))"
      proof (cases "int k = j")
        case True
        then have "nat j = k" by simp
        then have "?tbl' ! k = False" using k by simp
        with tk True less.prems(3) show ?thesis by simp
      next
        case False
        then have "nat j \<noteq> k" using less.prems(2) by auto
        then have same: "?tbl' ! k = tbl ! k" by simp
        have "(j + i \<le> int k \<and> i dvd int k) = (j \<le> int k \<and> i dvd int k)"
          using dvd_next_multiple [OF less.prems(1) less.prems(3), of "int k"] False
            less.prems(1) by auto
        with tk same show ?thesis by simp
      qed
    qed
    with t unfold show ?thesis by simp
  qed
qed

subsection \<open>The sieve marks exactly the primes\<close>

lemma prime_number_iff:
  "prime_number p \<longleftrightarrow> 2 \<le> p \<and> (\<forall>d. 2 \<le> d \<and> d < p \<longrightarrow> \<not> d dvd p)"
  by (auto simp: prime_number_def)

lemma composite_small_divisor:
  assumes "2 \<le> k" "\<not> prime_number k"
  shows "\<exists>d. 2 \<le> d \<and> d * d \<le> k \<and> d dvd k"
proof -
  from assms obtain d where d: "2 \<le> d" "d < k" "d dvd k"
    by (auto simp: prime_number_iff)
  then obtain e where e: "k = d * e" by (auto simp: dvd_def)
  have "0 < d * e" using e assms(1) by simp
  then have "0 < e" using d(1) by (simp add: zero_less_mult_iff)
  have "e \<noteq> 1" using e d(2) by auto
  with \<open>0 < e\<close> have e2: "2 \<le> e" by simp
  show ?thesis
  proof (cases "d \<le> e")
    case True
    then have "d * d \<le> d * e" using d(1) by (intro mult_left_mono) auto
    with d e show ?thesis by auto
  next
    case False
    then have "e * e \<le> d * e" using e2 by (intro mult_right_mono) auto
    moreover have "e dvd k" using e by simp
    ultimately show ?thesis using e e2 by auto
  qed
qed

lemma less_square:
  fixes d :: int
  assumes "2 \<le> d"
  shows "d < d * d"
proof -
  have "d * 1 < d * d" using assms by (intro mult_strict_left_mono) auto
  then show ?thesis by simp
qed

lemma prime_number_by_sqrt:
  assumes "2 \<le> i" "k < i * i"
  shows "prime_number k \<longleftrightarrow> 2 \<le> k \<and> (\<forall>d. 2 \<le> d \<and> d < i \<and> d * d \<le> k \<longrightarrow> \<not> d dvd k)"
proof
  assume p: "prime_number k"
  show "2 \<le> k \<and> (\<forall>d. 2 \<le> d \<and> d < i \<and> d * d \<le> k \<longrightarrow> \<not> d dvd k)"
  proof (intro conjI allI impI)
    show "2 \<le> k" using p by (simp add: prime_number_iff)
  next
    fix d assume d: "2 \<le> d \<and> d < i \<and> d * d \<le> k"
    then have "d < k" using less_square [of d] by linarith
    with d p show "\<not> d dvd k" by (simp add: prime_number_iff)
  qed
next
  assume r: "2 \<le> k \<and> (\<forall>d. 2 \<le> d \<and> d < i \<and> d * d \<le> k \<longrightarrow> \<not> d dvd k)"
  show "prime_number k"
  proof (rule ccontr)
    assume "\<not> prime_number k"
    with r obtain d where d: "2 \<le> d" "d * d \<le> k" "d dvd k"
      using composite_small_divisor by blast
    have "d < i"
    proof (rule ccontr)
      assume "\<not> d < i"
      then have "i * i \<le> d * d" using assms(1) by (intro mult_mono) auto
      with d(2) assms(2) show False by simp
    qed
    with d r show False by blast
  qed
qed

lemma sieve_loop_correct:
  assumes "2 \<le> i" "int (length tbl) = n + 1"
    and "\<forall>k < length tbl. tbl ! k =
           (2 \<le> int k \<and> (\<forall>d. 2 \<le> d \<and> d < i \<and> d * d \<le> int k \<longrightarrow> \<not> d dvd int k))"
  shows "\<exists>t. sieve_loop n i tbl = Some (Inr t) \<and> length t = length tbl \<and>
       (\<forall>k < length tbl. t ! k = prime_number (int k))"
  using assms
proof (induction "nat (n + 1 - i)" arbitrary: i tbl rule: less_induct)
  case less
  note inv = less.prems(3)
  show ?case
  proof (cases "i * i \<le> n")
    case False
    then have "sieve_loop n i tbl = Some (Inr tbl)"
      by (simp add: sieve_loop.simps)
    moreover have "\<forall>k < length tbl. tbl ! k = prime_number (int k)"
    proof (intro allI impI)
      fix k assume k: "k < length tbl"
      then have "int k < i * i" using False less.prems(2) by simp
      from prime_number_by_sqrt [OF less.prems(1) this] inv k
      show "tbl ! k = prime_number (int k)" by simp
    qed
    ultimately show ?thesis by simp
  next
    case True
    have "i < i * i" using less.prems(1) by (rule less_square)
    with True have i_le: "i \<le> n" by simp
    then have get: "list_get tbl i = Inr (tbl ! nat i)"
      using less.prems by (intro list_get_in_range) auto
    have smaller: "nat (n + 1 - (i + 1)) < nat (n + 1 - i)"
      using i_le by auto
    have i1: "2 \<le> i + 1" using less.prems(1) by simp
    have ik: "nat i < length tbl" using i_le less.prems by auto
    show ?thesis
    proof (cases "tbl ! nat i")
      case True
      have "0 < i" "0 \<le> i * i" "i dvd i * i" using less.prems(1) by auto
      from mark_multiples_marks [OF this less.prems(2)] obtain t' where
        t': "mark_multiples n i (i * i) tbl = Some (Inr t')" "length t' = length tbl"
            "\<forall>k < length tbl. t' ! k = (tbl ! k \<and> \<not> (i * i \<le> int k \<and> i dvd int k))"
        by blast
      have unfold: "sieve_loop n i tbl = sieve_loop n (i + 1) t'"
        using \<open>i * i \<le> n\<close> get True t'(1) by (subst sieve_loop.simps) simp
      have inv': "\<forall>k < length t'. t' ! k =
           (2 \<le> int k \<and> (\<forall>d. 2 \<le> d \<and> d < i + 1 \<and> d * d \<le> int k \<longrightarrow> \<not> d dvd int k))"
      proof (intro allI impI)
        fix k assume k: "k < length t'"
        have "(\<forall>d. 2 \<le> d \<and> d < i + 1 \<and> d * d \<le> int k \<longrightarrow> \<not> d dvd int k) =
              ((\<forall>d. 2 \<le> d \<and> d < i \<and> d * d \<le> int k \<longrightarrow> \<not> d dvd int k) \<and>
               \<not> (i * i \<le> int k \<and> i dvd int k))"
          using less.prems(1) by (auto simp: less_le)
        then show "t' ! k =
           (2 \<le> int k \<and> (\<forall>d. 2 \<le> d \<and> d < i + 1 \<and> d * d \<le> int k \<longrightarrow> \<not> d dvd int k))"
          using t'(3) inv k t'(2) by auto
      qed
      have "int (length t') = n + 1" using t'(2) less.prems(2) by simp
      from less.hyps [OF smaller i1 this inv'] unfold t'(2) show ?thesis by simp
    next
      case False
      have unfold: "sieve_loop n i tbl = sieve_loop n (i + 1) tbl"
        using \<open>i * i \<le> n\<close> get False by (subst sieve_loop.simps) simp
      from False inv ik less.prems(1) obtain d where
        d: "2 \<le> d" "d < i" "d * d \<le> i" "d dvd i" by auto
      have inv': "\<forall>k < length tbl. tbl ! k =
           (2 \<le> int k \<and> (\<forall>d. 2 \<le> d \<and> d < i + 1 \<and> d * d \<le> int k \<longrightarrow> \<not> d dvd int k))"
      proof (intro allI impI)
        fix k assume k: "k < length tbl"
        have covered: "\<not> (\<forall>d. 2 \<le> d \<and> d < i \<and> d * d \<le> int k \<longrightarrow> \<not> d dvd int k)"
          if "i * i \<le> int k" "i dvd int k"
        proof -
          have "d * d \<le> int k" using d(1,3) that(1) \<open>i < i * i\<close> by simp
          moreover have "d dvd int k" using d(4) that(2) by (rule dvd_trans)
          ultimately show ?thesis using d(1,2) by blast
        qed
        have "(\<forall>d. 2 \<le> d \<and> d < i + 1 \<and> d * d \<le> int k \<longrightarrow> \<not> d dvd int k) =
              (\<forall>d. 2 \<le> d \<and> d < i \<and> d * d \<le> int k \<longrightarrow> \<not> d dvd int k)"
          (is "?L = ?R")
        proof
          assume ?L
          then show ?R by auto
        next
          assume R: ?R
          show ?L
          proof (intro allI impI)
            fix e assume e: "2 \<le> e \<and> e < i + 1 \<and> e * e \<le> int k"
            then consider "e < i" | "e = i" by linarith
            then show "\<not> e dvd int k"
            proof cases
              case 1
              with R e show ?thesis by blast
            next
              case 2
              with e R covered show ?thesis by blast
            qed
          qed
        qed
        then show "tbl ! k =
           (2 \<le> int k \<and> (\<forall>d. 2 \<le> d \<and> d < i + 1 \<and> d * d \<le> int k \<longrightarrow> \<not> d dvd int k))"
          using inv k by simp
      qed
      from less.hyps [OF smaller i1 less.prems(2) inv'] unfold show ?thesis by simp
    qed
  qed
qed

lemma generate_sieve_table:
  assumes "0 \<le> n"
  shows "\<exists>t. generate_sieve n = Some (Inr t) \<and> int (length t) = n + 1 \<and>
       (\<forall>k < length t. t ! k = prime_number (int k))"
proof (cases "n < 2")
  case True
  have "\<forall>k < nat (n + 1). \<not> prime_number (int k)"
    using True by (auto simp: prime_number_iff)
  then show ?thesis using True assms
    by (simp add: generate_sieve_def list_repeat_def)
next
  case False
  let ?tbl0 = "list_repeat False (n + 1)"
  have len0: "int (length ?tbl0) = n + 1" using assms by (simp add: list_repeat_def)
  have "\<forall>i \<in> set (py_range 2 (n + 1)). 0 \<le> i \<and> i < int (length ?tbl0)"
    using len0 by (auto simp: py_range_def)
  from init_candidates_marks [OF this] obtain tbl where
    tbl: "init_candidates (py_range 2 (n + 1)) ?tbl0 = Inr tbl" "length tbl = length ?tbl0"
         "\<forall>k < length ?tbl0. tbl ! k = (?tbl0 ! k \<or> int k \<in> set (py_range 2 (n + 1)))"
    by blast
  have len: "int (length tbl) = n + 1" using tbl(2) len0 by simp
  have inv: "\<forall>k < length tbl. tbl ! k =
           (2 \<le> int k \<and> (\<forall>d. 2 \<le> d \<and> d < 2 \<and> d * d \<le> int k \<longrightarrow> \<not> d dvd int k))"
  proof (intro allI impI)
    fix k assume k: "k < length tbl"
    then have "tbl ! k = (?tbl0 ! k \<or> int k \<in> set (py_range 2 (n + 1)))"
      using tbl(2,3) by simp
    moreover have "?tbl0 ! k = False" using k tbl(2) by (simp add: list_repeat_def)
    moreover have "int k \<in> set (py_range 2 (n + 1)) = (2 \<le> int k)"
      using k len by (auto simp: py_range_def)
    ultimately show "tbl ! k =
           (2 \<le> int k \<and> (\<forall>d. 2 \<le> d \<and> d < 2 \<and> d * d \<le> int k \<longrightarrow> \<not> d dvd int k))"
      by auto
  qed
  have "(2::int) \<le> 2" by simp
  from sieve_loop_correct [OF this len inv] obtain t where
    t: "sieve_loop n 2 tbl = Some (Inr t)" "length t = length tbl"
       "\<forall>k < length tbl. t ! k = prime_number (int k)"
    by blast
  have "generate_sieve n = Some (Inr t)"
    using False assms tbl(1) t(1) by (simp add: generate_sieve_def)
  with t len show ?thesis by simp
qed

text \<open>The table of a non-negative bound, in closed form.\<close>

lemma generate_sieve_eq:
  assumes "0 \<le> n"
  shows "generate_sieve n = Some (Inr (map prime_number [0..n]))"
proof -
  from generate_sieve_table [OF assms] obtain t where
    t: "generate_sieve n = Some (Inr t)" "int (length t) = n + 1"
       "\<forall>k < length t. t ! k = prime_number (int k)"
    by blast
  have "t = map prime_number [0..n]"
  proof (rule nth_equalityI)
    show "length t = length (map prime_number [0..n])" using t(2) assms by simp
  next
    fix k assume k: "k < length t"
    then have "[0..n] ! k = 0 + int k" using t(2) by (intro nth_upto) simp
    then show "t ! k = map prime_number [0..n] ! k" using k t(2,3) by simp
  qed
  with t(1) show ?thesis by simp
qed

subsection \<open>The functions built on the sieve\<close>

lemma sum_marked_eq:
  "\<forall>i \<in> set idx. 0 \<le> i \<and> i < int (length sieve) \<Longrightarrow>
   sum_marked sieve idx tot = Inr (tot + sum_list (filter (\<lambda>i. sieve ! nat i) idx))"
proof (induction idx arbitrary: tot)
  case Nil
  then show ?case by simp
next
  case (Cons i rest)
  then have "list_get sieve i = Inr (sieve ! nat i)"
    by (intro list_get_in_range) auto
  with Cons show ?case by simp
qed

lemma collect_marked_eq:
  "\<forall>i \<in> set idx. 0 \<le> i \<and> i < int (length sieve) \<Longrightarrow>
   collect_marked sieve idx primes = Inr (primes @ filter (\<lambda>i. sieve ! nat i) idx)"
proof (induction idx arbitrary: primes)
  case Nil
  then show ?case by simp
next
  case (Cons i rest)
  then have "list_get sieve i = Inr (sieve ! nat i)"
    by (intro list_get_in_range) auto
  with Cons show ?case by simp
qed

lemma prime_table_nth:
  assumes "0 \<le> i" "i \<le> m"
  shows "map prime_number [0..m] ! nat i = prime_number i"
proof -
  have "[0..m] ! nat i = 0 + int (nat i)" using assms by (intro nth_upto) simp
  then show ?thesis using assms by simp
qed

lemma filter_prime_table:
  assumes "0 \<le> a" "b \<le> m + 1"
  shows "filter (\<lambda>i. map prime_number [0..m] ! nat i) (py_range a b) =
         filter prime_number (py_range a b)"
proof (rule filter_cong [OF refl])
  fix i assume "i \<in> set (py_range a b)"
  then have "0 \<le> i" "i \<le> m" using assms by (auto simp: py_range_def)
  then show "map prime_number [0..m] ! nat i = prime_number i" by (rule prime_table_nth)
qed

lemma is_prime_eq: "is_prime n = Some (Inr (prime_number n))"
proof (cases "n < 2")
  case True
  then show ?thesis by (simp add: is_prime_def prime_number_def)
next
  case False
  then have n: "0 \<le> n" by simp
  have "list_get (map prime_number [0..n]) n = Inr (map prime_number [0..n] ! nat n)"
    using n by (intro list_get_in_range) auto
  then have "list_get (map prime_number [0..n]) n = Inr (prime_number n)"
    using n by (simp add: prime_table_nth)
  then show ?thesis using False generate_sieve_eq [OF n] by (simp add: is_prime_def)
qed

lemma sum_loop_eq:
  assumes "2 \<le> n"
  shows "sum_marked (map prime_number [0..n - 1]) (py_range 2 n) 0 =
         Inr (sum_list (filter prime_number (py_range 2 n)))"
proof -
  have "\<forall>i \<in> set (py_range 2 n). 0 \<le> i \<and> i < int (length (map prime_number [0..n - 1]))"
    using assms by (auto simp: py_range_def)
  from sum_marked_eq [OF this, of 0] filter_prime_table [of 2 n "n - 1"]
  show ?thesis by simp
qed

lemma sum_primes_eq:
  assumes "0 \<le> n"
  shows "sum_primes n = Some (Inr (sum_list (filter prime_number (py_range 2 n))))"
proof (cases "n \<le> 2")
  case True
  then have "py_range 2 n = []" by (simp add: py_range_def)
  then show ?thesis using True assms by (simp add: sum_primes_def)
next
  case False
  then have "generate_sieve (n - 1) = Some (Inr (map prime_number [0..n - 1]))"
    by (intro generate_sieve_eq) simp
  then show ?thesis using False sum_loop_eq [of n] by (simp add: sum_primes_def)
qed

lemma sum_primes_using_sieve_eq:
  assumes "0 \<le> n"
  shows "sum_primes_using_sieve n = Some (Inr (sum_list (filter prime_number (py_range 2 n))))"
proof (cases "n < 2")
  case True
  then have "py_range 2 n = []" by (simp add: py_range_def)
  then show ?thesis using True assms by (simp add: sum_primes_using_sieve_def)
next
  case False
  then have "generate_sieve (n - 1) = Some (Inr (map prime_number [0..n - 1]))"
    by (intro generate_sieve_eq) simp
  then show ?thesis using False sum_loop_eq [of n] by (simp add: sum_primes_using_sieve_def)
qed

lemma get_all_primes_up_to_eq:
  assumes "0 \<le> n"
  shows "get_all_primes_up_to n = Some (Inr (filter prime_number (py_range 2 (n + 1))))"
proof (cases "n < 2")
  case True
  then have "py_range 2 (n + 1) = []" by (simp add: py_range_def)
  then show ?thesis using True assms by (simp add: get_all_primes_up_to_def)
next
  case False
  have "\<forall>i \<in> set (py_range 2 (n + 1)). 0 \<le> i \<and> i < int (length (map prime_number [0..n]))"
    using assms by (auto simp: py_range_def)
  from collect_marked_eq [OF this, of "[]"] filter_prime_table [of 2 "n + 1" n]
  have "collect_marked (map prime_number [0..n]) (py_range 2 (n + 1)) [] =
        Inr (filter prime_number (py_range 2 (n + 1)))" by simp
  then show ?thesis using False generate_sieve_eq [OF assms]
    by (simp add: get_all_primes_up_to_def)
qed

text \<open>The primes below a bound, as a set and as the filtered range.\<close>

lemma primes_in_range:
  "set (filter prime_number (py_range 2 n)) = {p. prime_number p \<and> p < n}"
  by (auto simp: py_range_def prime_number_def)

lemma sum_primes_in_range:
  "sum_list (filter prime_number (py_range 2 n)) = (\<Sum>p \<in> {p. prime_number p \<and> p < n}. p)"
proof -
  have "distinct (filter prime_number (py_range 2 n))" by (simp add: py_range_def)
  from sum_list_distinct_conv_sum_set [OF this, of "\<lambda>p. p"]
  have "sum_list (filter prime_number (py_range 2 n)) =
        (\<Sum>p \<in> set (filter prime_number (py_range 2 n)). p)" by simp
  then show ?thesis by (simp only: primes_in_range)
qed

lemma strictly_ascending_primes:
  "sorted_wrt (<) (filter prime_number (py_range 2 n))"
  by (simp add: py_range_def strict_sorted_iff sorted_wrt_filter)

subsection \<open>Trial division\<close>

lemma div_decreases:
  fixes n i :: int
  assumes "2 \<le> i" "1 \<le> n" "n mod i = 0"
  shows "1 \<le> n div i \<and> n div i < n"
proof -
  have n: "n = i * (n div i)" using assms(3) by auto
  have "0 < i * (n div i)" using n assms(2) by simp
  then have pos: "0 < n div i" using assms(1) by (simp add: zero_less_mult_iff)
  have "1 * (n div i) < i * (n div i)" using pos assms(1) by (intro mult_strict_right_mono) auto
  with n pos show ?thesis by simp
qed

lemma divide_out_correct:
  assumes "2 \<le> i" "1 \<le> n"
  shows "\<exists>n' k. divide_out i n factors = Some (Inr (n', factors @ replicate k i)) \<and>
           n = n' * i ^ k \<and> 1 \<le> n' \<and> n' \<le> n \<and> \<not> i dvd n'"
  using assms
proof (induction "nat n" arbitrary: n factors rule: less_induct)
  case less
  have i0: "i \<noteq> 0" using less.prems(1) by simp
  show ?case
  proof (cases "n mod i = 0")
    case False
    then have "divide_out i n factors = Some (Inr (n, factors @ replicate 0 i))"
      using i0 by (subst divide_out.simps) simp
    moreover have "\<not> i dvd n" using False by (simp add: dvd_eq_mod_eq_0)
    ultimately show ?thesis using less.prems(2) 
      by (intro exI [of _ n] exI [of _ 0]) simp
  next
    case True
    from div_decreases [OF less.prems True] have q: "1 \<le> n div i" "n div i < n" by simp_all
    have unfold: "divide_out i n factors = divide_out i (n div i) (factors @ [i])"
      using i0 True by (subst divide_out.simps) simp
    have "nat (n div i) < nat n" using q by simp
    from less.hyps [OF this less.prems(1) q(1), of "factors @ [i]"] obtain n' k where
      r: "divide_out i (n div i) (factors @ [i]) = Some (Inr (n', (factors @ [i]) @ replicate k i))"
         "n div i = n' * i ^ k" "1 \<le> n'" "n' \<le> n div i" "\<not> i dvd n'"
      by blast
    have "n = i * (n div i)" using True by auto
    with r(2) have "n = n' * i ^ Suc k" by simp
    moreover have "(factors @ [i]) @ replicate k i = factors @ replicate (Suc k) i" by simp
    moreover have "n' \<le> n" using r(4) q(2) by simp
    ultimately show ?thesis using unfold r(1,3,5)
      by (intro exI [of _ n'] exI [of _ "Suc k"]) (simp only: simp_thms)
  qed
qed

lemma no_small_divisor_prime:
  assumes "2 \<le> i" "i dvd n" "\<forall>d. 2 \<le> d \<and> d < i \<longrightarrow> \<not> d dvd n"
  shows "prime_number i"
  unfolding prime_number_iff
proof (intro conjI allI impI)
  show "2 \<le> i" by (rule assms(1))
next
  fix d assume d: "2 \<le> d \<and> d < i"
  show "\<not> d dvd i"
  proof
    assume "d dvd i"
    then have "d dvd n" using assms(2) by (rule dvd_trans)
    with d assms(3) show False by blast
  qed
qed

lemma trial_division_correct:
  assumes "2 \<le> i" "1 \<le> n" "\<forall>d. 2 \<le> d \<and> d < i \<longrightarrow> \<not> d dvd n"
  shows "\<exists>n' gs. trial_division i n factors = Some (Inr (n', factors @ gs)) \<and>
           n = n' * prod_list gs \<and> 1 \<le> n' \<and> sorted gs \<and>
           (1 < n' \<longrightarrow> prime_number n' \<and> i \<le> n') \<and>
           (\<forall>p \<in> set gs. prime_number p \<and> i \<le> p \<and> (1 < n' \<longrightarrow> p \<le> n'))"
  using assms
proof (induction "nat (n + 1 - i)" arbitrary: i n factors rule: less_induct)
  case less
  note nodiv = less.prems(3)
  show ?case
  proof (cases "i * i \<le> n")
    case False
    then have ret: "trial_division i n factors = Some (Inr (n, factors @ []))"
      by (subst trial_division.simps) simp
    have "prime_number n \<and> i \<le> n" if "1 < n"
    proof
      have "n < i * i" using False by simp
      moreover have "\<forall>d. 2 \<le> d \<and> d < i \<and> d * d \<le> n \<longrightarrow> \<not> d dvd n"
        using nodiv by blast
      ultimately show "prime_number n"
        using prime_number_by_sqrt [OF less.prems(1), of n] that by simp
      show "i \<le> n"
      proof (rule ccontr)
        assume "\<not> i \<le> n"
        then have "2 \<le> n \<and> n < i" using that by simp
        with nodiv have "\<not> n dvd n" by blast
        then show False by simp
      qed
    qed
    with ret less.prems(2) show ?thesis
      by (intro exI [of _ n] exI [of _ "[]"]) simp
  next
    case True
    have "i < i * i" using less.prems(1) by (rule less_square)
    with True have i_le: "i \<le> n" by simp
    from divide_out_correct [OF less.prems(1,2), of factors] obtain n1 k where
      d: "divide_out i n factors = Some (Inr (n1, factors @ replicate k i))"
         "n = n1 * i ^ k" "1 \<le> n1" "n1 \<le> n" "\<not> i dvd n1"
      by blast
    have unfold: "trial_division i n factors =
                  trial_division (i + 1) n1 (factors @ replicate k i)"
      using True d(1) by (subst trial_division.simps) simp
    have smaller: "nat (n1 + 1 - (i + 1)) < nat (n + 1 - i)"
      using i_le d(4) by auto
    have i1: "2 \<le> i + 1" using less.prems(1) by simp
    have "n1 dvd n" using d(2) by simp
    have nodiv1: "\<forall>e. 2 \<le> e \<and> e < i + 1 \<longrightarrow> \<not> e dvd n1"
    proof (intro allI impI)
      fix e assume e: "2 \<le> e \<and> e < i + 1"
      then consider "e < i" | "e = i" by linarith
      then show "\<not> e dvd n1"
      proof cases
        case 1
        with e nodiv have "\<not> e dvd n" by blast
        then show ?thesis using \<open>n1 dvd n\<close> dvd_trans by blast
      next
        case 2
        with d(5) show ?thesis by simp
      qed
    qed
    from less.hyps [OF smaller i1 d(3) nodiv1, of "factors @ replicate k i"]
    obtain n' gs where
      r: "trial_division (i + 1) n1 (factors @ replicate k i) =
            Some (Inr (n', (factors @ replicate k i) @ gs))"
         "n1 = n' * prod_list gs" "1 \<le> n'" "sorted gs"
         "1 < n' \<longrightarrow> prime_number n' \<and> i + 1 \<le> n'"
         "\<forall>p \<in> set gs. prime_number p \<and> i + 1 \<le> p \<and> (1 < n' \<longrightarrow> p \<le> n')"
      by blast
    let ?gs = "replicate k i @ gs"
    have res: "trial_division i n factors = Some (Inr (n', factors @ ?gs))"
      using unfold r(1) by simp
    have prod: "n = n' * prod_list ?gs"
      using d(2) r(2) by (simp add: prod_list_replicate)
    have srt: "sorted ?gs"
      using r(4,6) by (auto simp: sorted_append)
    have i_prime: "prime_number i" if "0 < k"
    proof -
      have "i dvd i ^ k" using that by (simp add: dvd_power)
      then have "i dvd n" using d(2) by simp
      from no_small_divisor_prime [OF less.prems(1) this nodiv] show ?thesis .
    qed
    have elems: "\<forall>p \<in> set ?gs. prime_number p \<and> i \<le> p \<and> (1 < n' \<longrightarrow> p \<le> n')"
    proof
      fix p assume "p \<in> set ?gs"
      then consider "p = i" "0 < k" | "p \<in> set gs" by auto
      then show "prime_number p \<and> i \<le> p \<and> (1 < n' \<longrightarrow> p \<le> n')"
      proof cases
        case 1
        then show ?thesis using i_prime r(5) by auto
      next
        case 2
        then show ?thesis using r(6) by auto
      qed
    qed
    have big: "1 < n' \<longrightarrow> prime_number n' \<and> i \<le> n'" using r(5) by auto
    from res prod r(3) srt big elems show ?thesis
      by (intro exI [of _ n'] exI [of _ ?gs]) (simp only: simp_thms)
  qed
qed

lemma prime_factors_correct:
  assumes "1 \<le> n"
  shows "\<exists>fs. prime_factors n = Some (Inr fs) \<and> prod_list fs = n \<and> sorted fs \<and>
           (\<forall>p \<in> set fs. prime_number p)"
proof -
  have "(2::int) \<le> 2" by simp
  moreover have "\<forall>d::int. 2 \<le> d \<and> d < 2 \<longrightarrow> \<not> d dvd n" by auto
  ultimately obtain n' gs where
    r: "trial_division 2 n [] = Some (Inr (n', [] @ gs))"
       "n = n' * prod_list gs" "1 \<le> n'" "sorted gs"
       "1 < n' \<longrightarrow> prime_number n' \<and> 2 \<le> n'"
       "\<forall>p \<in> set gs. prime_number p \<and> 2 \<le> p \<and> (1 < n' \<longrightarrow> p \<le> n')"
    using trial_division_correct [OF _ assms, of 2 "[]"] by blast
  let ?fs = "if n' > 1 then gs @ [n'] else gs"
  have res: "prime_factors n = Some (Inr ?fs)"
    using assms r(1) by (simp add: prime_factors_def)
  have "prod_list ?fs = n" using r(2,3) by auto
  moreover have "sorted ?fs" using r(4,6) by (auto simp: sorted_append)
  moreover have "\<forall>p \<in> set ?fs. prime_number p" using r(5,6) by auto
  ultimately show ?thesis using res by blast
qed

subsection \<open>The table as a heap object\<close>

lemma heap_store_objs [simp]: "objs (heap_store a xs h) = (objs h)(a := xs)"
  by (simp add: heap_store_def)

lemma heap_store_next [simp]: "next_addr (heap_store a xs h) = next_addr h"
  by (simp add: heap_store_def)

lemma heap_store_twice [simp]: "heap_store a xs (heap_store a ys h) = heap_store a xs h"
  by (simp add: heap_store_def)

lemma heap_store_same [simp]: "heap_store a (objs h a) h = h"
  by (simp add: heap_store_def)

lemma in_heap_store [simp]: "in_heap a (heap_store a xs h) r = in_heap a h r"
  by (simp add: in_heap_def split: option.splits sum.splits)

lemma init_candidates_ref_eq:
  "init_candidates_ref idx a h =
     (case init_candidates idx (objs h a) of
        Inl e \<Rightarrow> Inl e
      | Inr t \<Rightarrow> Inr (heap_store a t h))"
proof (induction idx arbitrary: h)
  case Nil
  then show ?case by simp
next
  case (Cons i rest)
  show ?case
  proof (cases "list_set (objs h a) i True")
    case (Inl e)
    then show ?thesis by (simp add: ref_set_def)
  next
    case (Inr xs)
    then show ?thesis using Cons.IH [of "heap_store a xs h"]
      by (simp add: ref_set_def split: sum.splits)
  qed
qed

lemma mark_multiples_ref_eq:
  assumes "0 < i"
  shows "mark_multiples_ref n i j a h = in_heap a h (mark_multiples n i j (objs h a))"
proof (induction "nat (n + 1 - j)" arbitrary: j h rule: less_induct)
  case less
  show ?case
  proof (cases "j \<le> n")
    case False
    then show ?thesis
      by (subst mark_multiples_ref.simps, subst mark_multiples.simps) (simp add: in_heap_def)
  next
    case True
    show ?thesis
    proof (cases "list_set (objs h a) j False")
      case (Inl e)
      with True show ?thesis
        by (subst mark_multiples_ref.simps, subst mark_multiples.simps)
           (simp add: in_heap_def ref_set_def)
    next
      case (Inr xs)
      have "nat (n + 1 - (j + i)) < nat (n + 1 - j)" using True assms by auto
      from less.hyps [OF this, of "heap_store a xs h"]
      have "mark_multiples_ref n i (j + i) a (heap_store a xs h) =
            in_heap a h (mark_multiples n i (j + i) xs)" by simp
      with True Inr show ?thesis
        by (subst mark_multiples_ref.simps, subst mark_multiples.simps)
           (simp add: ref_set_def)
    qed
  qed
qed

lemma sieve_loop_ref_eq:
  assumes "0 < i"
  shows "sieve_loop_ref n i a h = in_heap a h (sieve_loop n i (objs h a))"
  using assms
proof (induction "nat (n + 1 - i)" arbitrary: i h rule: less_induct)
  case less
  show ?case
  proof (cases "i * i \<le> n")
    case False
    then show ?thesis
      by (subst sieve_loop_ref.simps, subst sieve_loop.simps) (simp add: in_heap_def)
  next
    case True
    have "i * 1 \<le> i * i" using less.prems by (intro mult_left_mono) auto
    with True have "i \<le> n" by simp
    then have smaller: "nat (n + 1 - (i + 1)) < nat (n + 1 - i)" by auto
    have pos: "0 < i + 1" using less.prems by simp
    note IH = less.hyps [OF smaller pos]
    show ?thesis
    proof (cases "list_get (objs h a) i")
      case (Inl e)
      with True show ?thesis
        by (subst sieve_loop_ref.simps, subst sieve_loop.simps)
           (simp add: in_heap_def ref_get_def)
    next
      case (Inr b)
      show ?thesis
      proof (cases b)
        case False
        with True Inr IH [of h] show ?thesis
          by (subst sieve_loop_ref.simps, subst sieve_loop.simps) (simp add: ref_get_def)
      next
        case b: True
        have inner: "mark_multiples_ref n i (i * i) a h =
                     in_heap a h (mark_multiples n i (i * i) (objs h a))"
          using less.prems by (rule mark_multiples_ref_eq)
        show ?thesis
        proof (cases "mark_multiples n i (i * i) (objs h a)")
          case None
          with True Inr b inner show ?thesis
            by (subst sieve_loop_ref.simps, subst sieve_loop.simps)
               (simp add: ref_get_def in_heap_def)
        next
          case (Some r)
          show ?thesis
          proof (cases r)
            case (Inl e)
            with True Inr b inner Some show ?thesis
              by (subst sieve_loop_ref.simps, subst sieve_loop.simps)
                 (simp add: ref_get_def in_heap_def)
          next
            case r: (Inr t)
            have "sieve_loop_ref n (i + 1) a (heap_store a t h) =
                  in_heap a h (sieve_loop n (i + 1) t)"
              using IH [of "heap_store a t h"] by simp
            moreover have "mark_multiples_ref n i (i * i) a h = Some (Inr (heap_store a t h))"
              using inner Some r by (simp add: in_heap_def)
            ultimately show ?thesis using True Inr b Some r
              by (subst sieve_loop_ref.simps, subst sieve_loop.simps) (simp add: ref_get_def)
          qed
        qed
      qed
    qed
  qed
qed

lemma new_list_store:
  "new_list xs h = (a, h0) \<Longrightarrow> a = next_addr h \<and> heap_store a ys h0 = snd (new_list ys h)"
  by (auto simp: new_list_def heap_store_def)

lemma generate_sieve_ref_eq:
  "generate_sieve_ref n h =
     (case generate_sieve n of
        None \<Rightarrow> None
      | Some (Inl e) \<Rightarrow> Some (Inl e)
      | Some (Inr t) \<Rightarrow> Some (Inr (new_list t h)))"
proof (cases "n < 2")
  case True
  then show ?thesis by (simp add: generate_sieve_ref_def generate_sieve_def)
next
  case False
  let ?xs = "list_repeat False (n + 1)"
  let ?a = "next_addr h"
  obtain h0 where alloc: "new_list ?xs h = (?a, h0)" by (simp add: new_list_def)
  have obj: "objs h0 ?a = ?xs" using alloc by (auto simp: new_list_def)
  have st: "heap_store ?a ys h0 = snd (new_list ys h)" for ys
    using new_list_store [OF alloc] by simp
  have pair: "(?a, snd (new_list ys h)) = new_list ys h" for ys
    by (simp add: new_list_def)
  show ?thesis
  proof (cases "init_candidates (py_range 2 (n + 1)) ?xs")
    case (Inl e)
    then show ?thesis using False alloc obj
      by (simp add: generate_sieve_ref_def generate_sieve_def init_candidates_ref_eq)
  next
    case (Inr t)
    have loop: "sieve_loop_ref n 2 ?a (heap_store ?a t h0) = in_heap ?a h0 (sieve_loop n 2 t)"
      using sieve_loop_ref_eq [of 2 n ?a "heap_store ?a t h0"] by simp
    show ?thesis using False alloc obj Inr loop
      by (simp add: generate_sieve_ref_def generate_sieve_def init_candidates_ref_eq
          in_heap_def st pair split: option.splits sum.splits)
  qed
qed

lemma generate_sieve_ref_table:
  assumes "0 \<le> n"
  shows "generate_sieve_ref n h = Some (Inr (new_list (map prime_number [0..n]) h))"
  using generate_sieve_eq [OF assms] by (simp add: generate_sieve_ref_eq)

section \<open>The claims\<close>

text \<open>
  C1. For every bound \<open>n \<ge> 0\<close>, \<open>generate_sieve n\<close> returns a table of length exactly
  \<open>n + 1\<close> whose position \<open>i\<close> is true if and only if \<open>i\<close> is a prime number, for all
  \<open>0 \<le> i \<le> n\<close>; in particular positions 0 and 1, when present, are false.
\<close>

theorem generate_sieve_marks_primes:
  assumes "0 \<le> n"
  shows "\<exists>t. generate_sieve n = Some (Inr t) \<and> int (length t) = n + 1 \<and>
           (\<forall>i. 0 \<le> i \<and> i \<le> n \<longrightarrow> (t ! nat i \<longleftrightarrow> prime_number i)) \<and>
           (\<forall>i. 0 \<le> i \<and> i \<le> n \<and> i \<le> 1 \<longrightarrow> \<not> t ! nat i)"
proof -
  from generate_sieve_table [OF assms] obtain t where
    t: "generate_sieve n = Some (Inr t)" "int (length t) = n + 1"
       "\<forall>k < length t. t ! k = prime_number (int k)"
    by blast
  have marks: "t ! nat i = prime_number i" if "0 \<le> i" "i \<le> n" for i
  proof -
    have "nat i < length t" using that t(2) by simp
    with t(3) have "t ! nat i = prime_number (int (nat i))" by blast
    with that show ?thesis by simp
  qed
  have "\<not> t ! nat i" if "0 \<le> i" "i \<le> n" "i \<le> 1" for i
    using marks [OF that(1,2)] that(3) by (simp add: prime_number_def)
  with t(1,2) marks show ?thesis by blast
qed

theorem generate_sieve_marks_primes_witness:
  "(0::int) \<le> 10 \<and>
   (\<exists>t. generate_sieve 10 = Some (Inr t) \<and> int (length t) = 10 + 1 \<and>
      (\<forall>i. 0 \<le> i \<and> i \<le> 10 \<longrightarrow> (t ! nat i \<longleftrightarrow> prime_number i)) \<and>
      (\<forall>i. 0 \<le> i \<and> i \<le> 10 \<and> i \<le> 1 \<longrightarrow> \<not> t ! nat i))"
proof -
  have h: "(0::int) \<le> 10" by simp
  from generate_sieve_marks_primes [OF h] h show ?thesis by blast
qed

text \<open>
  C2. For every \<open>n > 0\<close>, \<open>prime_factors n\<close> returns a sequence of primes in ascending
  order whose product is \<open>n\<close>; \<open>prime_factors 1\<close> returns the empty sequence.
\<close>

theorem prime_factors_ascending_primes:
  assumes "0 < n"
  shows "\<exists>fs. prime_factors n = Some (Inr fs) \<and> (\<forall>p \<in> set fs. prime_number p) \<and>
           sorted fs \<and> prod_list fs = n \<and> (n = 1 \<longrightarrow> fs = [])"
proof -
  from assms have "1 \<le> n" by simp
  from prime_factors_correct [OF this] obtain fs where
    fs: "prime_factors n = Some (Inr fs)" "prod_list fs = n" "sorted fs"
        "\<forall>p \<in> set fs. prime_number p"
    by blast
  have "prime_factors 1 = Some (Inr [])"
    by (simp add: prime_factors_def trial_division.simps)
  with fs(1) have "n = 1 \<longrightarrow> fs = []" by auto
  with fs show ?thesis by blast
qed

theorem prime_factors_ascending_primes_witness:
  "(0::int) < 12 \<and> prime_factors 12 = Some (Inr [2, 2, 3]) \<and>
   prime_number 2 \<and> prime_number 3 \<and> sorted [2, 2, 3::int] \<and>
   prod_list [2, 2, 3::int] = 12"
proof -
  have h: "(0::int) < 12" by simp
  have e: "prime_factors 12 = Some (Inr [2, 2, 3])" by code_simp
  from prime_factors_ascending_primes [OF h] e h show ?thesis by auto
qed

text \<open>
  C3. For every integer \<open>n\<close>, \<open>is_prime n\<close> returns true if and only if \<open>n\<close> is a prime
  number; for every \<open>n < 2\<close> it returns false and raises nothing.
\<close>

theorem is_prime_iff_prime_number:
  "(\<exists>b. is_prime n = Some (Inr b)) \<and>
   (is_prime n = Some (Inr True) \<longleftrightarrow> prime_number n) \<and>
   (n < 2 \<longrightarrow> is_prime n = Some (Inr False))"
  using is_prime_eq [of n] by (auto simp: prime_number_def)

theorem is_prime_iff_prime_number_witness:
  "is_prime 17 = Some (Inr True) \<and> prime_number 17 \<and>
   (- 5 :: int) < 2 \<and> is_prime (- 5) = Some (Inr False)"
proof -
  have p: "prime_number 17" by (simp add: prime_number_def)
  from is_prime_iff_prime_number [of 17] is_prime_iff_prime_number [of "- 5"] p
  show ?thesis by simp
qed

text \<open>
  C4. \<open>sum_primes\<close> and \<open>sum_primes_using_sieve\<close> behave alike: both return on every
  integer, they return the same value wherever one of them returns a value, and they raise
  (a \<open>ValueError\<close>, for a negative bound) on exactly the same inputs.
\<close>

theorem sum_primes_agree:
  "(\<forall>v. sum_primes n = Some (Inr v) \<longleftrightarrow> sum_primes_using_sieve n = Some (Inr v)) \<and>
   ((\<exists>e. sum_primes n = Some (Inl e)) \<longleftrightarrow> (\<exists>e. sum_primes_using_sieve n = Some (Inl e))) \<and>
   ((\<exists>m. sum_primes n = Some (Inl (ValueError m))) \<longleftrightarrow>
    (\<exists>m. sum_primes_using_sieve n = Some (Inl (ValueError m)))) \<and>
   sum_primes n \<noteq> None \<and> sum_primes_using_sieve n \<noteq> None"
proof (cases "n < 0")
  case True
  then show ?thesis by (simp add: sum_primes_def sum_primes_using_sieve_def)
next
  case False
  then have "0 \<le> n" by simp
  from sum_primes_eq [OF this] sum_primes_using_sieve_eq [OF this]
  show ?thesis by simp
qed

theorem sum_primes_agree_witness:
  "sum_primes 12 = Some (Inr 28) \<and> sum_primes_using_sieve 12 = Some (Inr 28) \<and>
   (\<exists>m. sum_primes (- 1) = Some (Inl (ValueError m))) \<and>
   (\<exists>m. sum_primes_using_sieve (- 1) = Some (Inl (ValueError m)))"
proof -
  have a: "sum_primes 12 = Some (Inr 28)" by code_simp
  have b: "\<exists>m. sum_primes (- 1) = Some (Inl (ValueError m))"
    by (simp add: sum_primes_def)
  from sum_primes_agree [of 12] a have "sum_primes_using_sieve 12 = Some (Inr 28)"
    by blast
  moreover from sum_primes_agree [of "- 1"] b
  have "\<exists>m. sum_primes_using_sieve (- 1) = Some (Inl (ValueError m))" by blast
  ultimately show ?thesis using a b by blast
qed

text \<open>
  C5. For every \<open>n \<ge> 0\<close>, \<open>sum_primes n\<close> returns the sum of all primes strictly less
  than \<open>n\<close>, an unbounded integer; for \<open>0 \<le> n \<le> 2\<close> it returns 0.
\<close>

theorem sum_primes_below:
  assumes "0 \<le> n"
  shows "sum_primes n = Some (Inr (\<Sum>p \<in> {p. prime_number p \<and> p < n}. p)) \<and>
         (n \<le> 2 \<longrightarrow> sum_primes n = Some (Inr 0))"
  using sum_primes_eq [OF assms] assms
  by (simp add: sum_primes_in_range sum_primes_def)

theorem sum_primes_below_witness:
  "(0::int) \<le> 10 \<and> sum_primes 10 = Some (Inr 17) \<and>
   (\<Sum>p \<in> {p. prime_number p \<and> p < 10}. p) = 17 \<and>
   (2::int) \<le> 2 \<and> sum_primes 2 = Some (Inr 0)"
proof -
  have h: "(0::int) \<le> 10" and h2: "(0::int) \<le> 2" by simp_all
  have a: "sum_primes 10 = Some (Inr 17)" by code_simp
  from sum_primes_below [OF h] a
  have s: "(\<Sum>p \<in> {p. prime_number p \<and> p < 10}. p) = 17" by simp
  from sum_primes_below [OF h2] have z: "sum_primes 2 = Some (Inr 0)" by blast
  from a s z show ?thesis by simp
qed

text \<open>
  C6. For every \<open>n \<ge> 0\<close>, \<open>get_all_primes_up_to n\<close> returns the primes of \<open>[2, n]\<close>, all
  of them, in strictly ascending order and so without duplicates; for \<open>n < 2\<close> the
  sequence is empty.
\<close>

theorem get_all_primes_up_to_ascending:
  assumes "0 \<le> n"
  shows "\<exists>ps. get_all_primes_up_to n = Some (Inr ps) \<and>
           set ps = {p. prime_number p \<and> 2 \<le> p \<and> p \<le> n} \<and>
           sorted_wrt (<) ps \<and> distinct ps \<and> (n < 2 \<longrightarrow> ps = [])"
proof -
  let ?ps = "filter prime_number (py_range 2 (n + 1))"
  have "set ?ps = {p. prime_number p \<and> 2 \<le> p \<and> p \<le> n}"
    by (auto simp: py_range_def)
  moreover have "sorted_wrt (<) ?ps" by (rule strictly_ascending_primes)
  moreover have "distinct ?ps" by (simp add: py_range_def)
  moreover have "n < 2 \<longrightarrow> ?ps = []" by (simp add: py_range_def)
  ultimately show ?thesis using get_all_primes_up_to_eq [OF assms] by blast
qed

theorem get_all_primes_up_to_ascending_witness:
  "(0::int) \<le> 10 \<and> get_all_primes_up_to 10 = Some (Inr [2, 3, 5, 7]) \<and>
   set [2, 3, 5, 7] = {p. prime_number p \<and> 2 \<le> p \<and> p \<le> 10} \<and>
   (1::int) < 2 \<and> get_all_primes_up_to 1 = Some (Inr [])"
proof -
  have h: "(0::int) \<le> 10" and h1: "(0::int) \<le> 1" by simp_all
  have a: "get_all_primes_up_to 10 = Some (Inr [2, 3, 5, 7])" by code_simp
  from get_all_primes_up_to_ascending [OF h] a
  have "set [2, 3, 5, 7] = {p. prime_number p \<and> 2 \<le> p \<and> p \<le> 10}" by auto
  moreover from get_all_primes_up_to_ascending [OF h1]
  have "get_all_primes_up_to 1 = Some (Inr [])" by auto
  ultimately show ?thesis using a by simp
qed

text \<open>
  C7. A negative bound makes \<open>generate_sieve\<close>, \<open>sum_primes\<close>, \<open>sum_primes_using_sieve\<close>
  and \<open>get_all_primes_up_to\<close> raise a \<open>ValueError\<close> whose message names the bound, and a
  bound \<open>n \<le> 0\<close> makes \<open>prime_factors\<close> do so; the check is the first thing each
  function does, and the result is the error alone, with no table or sequence.
\<close>

theorem invalid_bounds_raise:
  "(n < 0 \<longrightarrow>
      generate_sieve n = Some (Inl (ValueError (''Limit cannot be negative: '' @ str_int n))) \<and>
      sum_primes n = Some (Inl (ValueError (''Upper bound cannot be negative: '' @ str_int n))) \<and>
      sum_primes_using_sieve n =
        Some (Inl (ValueError (''Upper limit cannot be negative: '' @ str_int n))) \<and>
      get_all_primes_up_to n =
        Some (Inl (ValueError (''Upper bound cannot be negative: '' @ str_int n)))) \<and>
   (n \<le> 0 \<longrightarrow>
      prime_factors n = Some (Inl (ValueError (''Number must be positive: '' @ str_int n))))"
  by (simp add: generate_sieve_def sum_primes_def sum_primes_using_sieve_def
      get_all_primes_up_to_def prime_factors_def)

theorem invalid_bounds_raise_witness:
  "(- 3 :: int) < 0 \<and>
   generate_sieve (- 3) = Some (Inl (ValueError ''Limit cannot be negative: -3'')) \<and>
   sum_primes (- 3) = Some (Inl (ValueError ''Upper bound cannot be negative: -3'')) \<and>
   sum_primes_using_sieve (- 3) = Some (Inl (ValueError ''Upper limit cannot be negative: -3'')) \<and>
   get_all_primes_up_to (- 3) = Some (Inl (ValueError ''Upper bound cannot be negative: -3'')) \<and>
   (0 :: int) \<le> 0 \<and>
   prime_factors 0 = Some (Inl (ValueError ''Number must be positive: 0''))"
proof -
  have a: "str_int (- 3) = ''-3''" by code_simp
  have b: "str_int 0 = ''0''" by code_simp
  from invalid_bounds_raise [of "- 3"] invalid_bounds_raise [of 0] a b
  show ?thesis by simp
qed

text \<open>
  C8. For every \<open>n \<ge> 0\<close>, \<open>is_prime n\<close> is true if and only if \<open>n\<close> is a member of
  \<open>get_all_primes_up_to n\<close>, and \<open>is_prime\<close> is true of every member of that sequence.
\<close>

theorem is_prime_agrees_with_enumeration:
  assumes "0 \<le> n"
  shows "\<exists>ps. get_all_primes_up_to n = Some (Inr ps) \<and>
           (is_prime n = Some (Inr True) \<longleftrightarrow> n \<in> set ps) \<and>
           (is_prime n = Some (Inr False) \<longleftrightarrow> n \<notin> set ps) \<and>
           (\<forall>p \<in> set ps. is_prime p = Some (Inr True))"
proof -
  let ?ps = "filter prime_number (py_range 2 (n + 1))"
  have mem: "p \<in> set ?ps \<longleftrightarrow> prime_number p \<and> p \<le> n" for p
    by (auto simp: py_range_def prime_number_def)
  have "is_prime n = Some (Inr True) \<longleftrightarrow> n \<in> set ?ps"
    using is_prime_eq [of n] mem [of n] by simp
  moreover have "is_prime n = Some (Inr False) \<longleftrightarrow> n \<notin> set ?ps"
    using is_prime_eq [of n] mem [of n] by simp
  moreover have "\<forall>p \<in> set ?ps. is_prime p = Some (Inr True)"
    using is_prime_eq mem by simp
  ultimately show ?thesis using get_all_primes_up_to_eq [OF assms] by blast
qed

theorem is_prime_agrees_with_enumeration_witness:
  "(0::int) \<le> 7 \<and> get_all_primes_up_to 7 = Some (Inr [2, 3, 5, 7]) \<and>
   is_prime 7 = Some (Inr True) \<and> is_prime 5 = Some (Inr True) \<and>
   is_prime 3 = Some (Inr True) \<and> is_prime 2 = Some (Inr True)"
proof -
  have h: "(0::int) \<le> 7" by simp
  have a: "get_all_primes_up_to 7 = Some (Inr [2, 3, 5, 7])" by code_simp
  from is_prime_agrees_with_enumeration [OF h] a show ?thesis by auto
qed

text \<open>
  C9. Two calls of \<open>generate_sieve\<close> with the same \<open>n \<ge> 0\<close> return identical tables,
  whatever the heap holds before each of them (\<open>h\<close> before the one, \<open>h'\<close> before the
  other: in particular the heap that the first call left, changed at will by the
  caller). Each call returns a new object, writes no object that existed before, and
  the table it returns is the one of the list-valued form of the function.
\<close>

theorem generate_sieve_idempotent:
  assumes "0 \<le> n"
  shows "\<exists>a1 h1 a2 h2.
           generate_sieve_ref n h = Some (Inr (a1, h1)) \<and>
           generate_sieve_ref n h' = Some (Inr (a2, h2)) \<and>
           objs h1 a1 = objs h2 a2 \<and>
           generate_sieve n = Some (Inr (objs h1 a1)) \<and>
           a1 = next_addr h \<and> a2 = next_addr h' \<and>
           next_addr h1 = Suc a1 \<and> next_addr h2 = Suc a2 \<and>
           (\<forall>b. b \<noteq> a1 \<longrightarrow> objs h1 b = objs h b) \<and>
           (\<forall>b. b \<noteq> a2 \<longrightarrow> objs h2 b = objs h' b)"
  using generate_sieve_ref_table [OF assms] generate_sieve_eq [OF assms]
  by (simp add: new_list_def)

theorem generate_sieve_idempotent_witness:
  "(0::int) \<le> 10 \<and>
   (\<exists>h1 h2. generate_sieve_ref 10 empty_heap = Some (Inr (0, h1)) \<and>
      generate_sieve_ref 10 (heap_store 0 [True] h1) = Some (Inr (1, h2)) \<and>
      objs h1 0 =
        [False, False, True, True, False, True, False, True, False, False, False] \<and>
      objs h2 1 = objs h1 0 \<and> objs h2 0 = [True])"
proof -
  have h: "(0::int) \<le> 10" by simp
  have t: "generate_sieve 10 =
     Some (Inr [False, False, True, True, False, True, False, True, False, False, False])"
    by code_simp
  obtain a1 h1 where
    c1: "generate_sieve_ref 10 empty_heap = Some (Inr (a1, h1))"
        "generate_sieve 10 = Some (Inr (objs h1 a1))"
        "a1 = next_addr empty_heap" "next_addr h1 = Suc a1"
    using generate_sieve_idempotent [OF h, of empty_heap empty_heap] by blast
  obtain a2 h2 where
    c2: "generate_sieve_ref 10 (heap_store 0 [True] h1) = Some (Inr (a2, h2))"
        "generate_sieve 10 = Some (Inr (objs h2 a2))"
        "a2 = next_addr (heap_store 0 [True] h1)"
        "\<forall>b. b \<noteq> a2 \<longrightarrow> objs h2 b = objs (heap_store 0 [True] h1) b"
    using generate_sieve_idempotent [OF h, of "heap_store 0 [True] h1" "heap_store 0 [True] h1"]
    by blast
  have a1: "a1 = 0" using c1(3) by (simp add: empty_heap_def)
  have a2: "a2 = 1" using c2(3) c1(4) a1 by simp
  have "objs h2 0 = [True]" using c2(4) a2 by simp
  with c1 c2 t a1 a2 h show ?thesis by simp
qed

text \<open>
  C10. \<open>prime_factors n\<close> returns for every \<open>n \<ge> 1\<close>. The inner loop returns for every
  divisor \<open>i \<ge> 2\<close>, each of its divisions makes the remaining value strictly smaller, and
  the outer loop stops as soon as \<open>i * i\<close> exceeds the remaining value.
\<close>

theorem prime_factors_terminates:
  assumes "1 \<le> n"
  shows "(\<exists>fs. prime_factors n = Some (Inr fs)) \<and>
         (\<forall>i factors. 2 \<le> i \<longrightarrow>
            (\<exists>n' factors'. divide_out i n factors = Some (Inr (n', factors')) \<and>
               1 \<le> n' \<and> n' \<le> n) \<and>
            (n mod i = 0 \<longrightarrow> 1 \<le> n div i \<and> n div i < n) \<and>
            (n < i * i \<longrightarrow> trial_division i n factors = Some (Inr (n, factors))))"
proof (intro conjI allI impI)
  from prime_factors_correct [OF assms] show "\<exists>fs. prime_factors n = Some (Inr fs)"
    by blast
next
  fix i :: int and factors :: "int list"
  assume i: "2 \<le> i"
  from divide_out_correct [OF i assms, of factors]
  show "\<exists>n' factors'. divide_out i n factors = Some (Inr (n', factors')) \<and>
          1 \<le> n' \<and> n' \<le> n"
    by blast
next
  fix i :: int and factors :: "int list"
  assume "2 \<le> i" "n mod i = 0"
  then show "1 \<le> n div i" "n div i < n"
    using div_decreases [of i n] assms by simp_all
next
  fix i :: int and factors :: "int list"
  assume "n < i * i"
  then show "trial_division i n factors = Some (Inr (n, factors))"
    by (subst trial_division.simps) simp
qed

theorem prime_factors_terminates_witness:
  "(1::int) \<le> 360 \<and> prime_factors 360 = Some (Inr [2, 2, 2, 3, 3, 5]) \<and>
   divide_out 2 360 [] = Some (Inr (45, [2, 2, 2])) \<and>
   (360::int) div 2 < 360 \<and>
   trial_division 19 360 [] = Some (Inr (360, []))"
proof -
  have h: "(1::int) \<le> 360" by simp
  have a: "prime_factors 360 = Some (Inr [2, 2, 2, 3, 3, 5])" by code_simp
  have b: "divide_out 2 360 [] = Some (Inr (45, [2, 2, 2]))" by code_simp
  from prime_factors_terminates [OF h] have
    "(360::int) < 19 * 19 \<longrightarrow> trial_division 19 360 [] = Some (Inr (360, []))"
    by (elim conjE allE [of _ 19] allE [of _ "[]"]) simp
  with a b show ?thesis by simp
qed

end
